theory Spec2Isabelle
  imports Main "HOL-Library.AList"
begin

section \<open>The realtime map adapter of src/realtime/realtimemap.ts\<close>

text \<open>
  \<open>GoogleRealtimeMap<T>\<close> keeps a local \<open>ObservableMap<T>\<close> (the cache, field \<open>_map\<close>)
  beside a reference to a remote \<open>CollaborativeMap\<close> (field \<open>_gmap\<close>), writes every local
  mutation to both, and re-emits the remote map's non-local \<open>VALUE_CHANGED\<close> events on its
  own \<open>changed\<close> signal. The embedding below follows the class method by method. State is
  passed explicitly; a method that can throw returns \<open>Inl\<close> of the error together with the
  state as the statements executed before the throw have left it.
\<close>

subsection \<open>JavaScript values\<close>

text \<open>
  The values of type \<open>T\<close> and \<open>GoogleSynchronizable\<close> that the class handles. The class only
  ever inspects a value in two ways: its truthiness (\<open>!item\<close>, \<open>oldVal ? .. : ..\<close>,
  \<open>evt.oldValue && evt.newValue\<close>) and its \<open>type\<close> property (\<open>item.type === 'List'\<close>).
  \<open>JObj t n\<close> is an object with identity \<open>n\<close> whose \<open>type\<close> property is the string \<open>t\<close>, if
  it has one. \<open>RtVector\<close>, \<open>RtString\<close> and \<open>RtMap\<close> are the wrappers that
  \<open>_createNewEntry\<close> builds around a collaborative list, string or map (a
  \<open>GoogleRealtimeVector\<close>, \<open>GoogleRealtimeString\<close> or nested \<open>GoogleRealtimeMap\<close> whose
  \<open>googleObject\<close> is the wrapped item); none of them has a \<open>type\<close> property.
  \<open>Observable n\<close> is an observable object of the host (a vector, map or string of
  jupyterlab), which has a \<open>link\<close> method and no \<open>type\<close> property.
\<close>

datatype jsval =
    Undefined
  | Null
  | JBool bool
  | JNum int
  | JNaN
  | JStr string
  | JObj "string option" nat
  | RtVector jsval
  | RtString jsval
  | RtMap jsval
  | Observable nat

text \<open>JavaScript's ToBoolean: \<open>undefined\<close>, \<open>null\<close>, \<open>false\<close>, \<open>0\<close>, \<open>NaN\<close> and \<open>''\<close> are falsy.\<close>

fun truthy :: "jsval \<Rightarrow> bool" where
  "truthy Undefined = False"
| "truthy Null = False"
| "truthy (JBool b) = b"
| "truthy (JNum n) = (n \<noteq> 0)"
| "truthy JNaN = False"
| "truthy (JStr s) = (s \<noteq> [])"
| "truthy (JObj t n) = True"
| "truthy (RtVector g) = True"
| "truthy (RtString g) = True"
| "truthy (RtMap g) = True"
| "truthy (Observable n) = True"

text \<open>The string held by \<open>item.type\<close>, if any.\<close>

fun typeTag :: "jsval \<Rightarrow> string option" where
  "typeTag (JObj t n) = t"
| "typeTag v = None"

text \<open>
  Whether \<open>v.link(..)\<close> can be called: the observables of the host and the wrappers of
  this package have the method (\<open>GoogleRealtimeMap\<close> at lines 222-224), primitives and
  the collaborative or plain objects \<open>JObj\<close> have not, and on \<open>undefined\<close> and \<open>null\<close>
  already the property access throws.
\<close>

fun hasLink :: "jsval \<Rightarrow> bool" where
  "hasLink (RtVector g) = True"
| "hasLink (RtString g) = True"
| "hasLink (RtMap g) = True"
| "hasLink (Observable n) = True"
| "hasLink v = False"

text \<open>
  The two exceptions that the class can raise: the TypeError of a call on \<open>null\<close> or of a
  call of a missing method, and the plain \<open>Error\<close> that \<open>ObservableMap.set\<close> throws.
\<close>

datatype error = TypeError | PlainError

subsection \<open>The two maps and the signal\<close>

text \<open>
  \<open>ObservableMap<T>\<close> (jupyterlab) wraps a JavaScript \<open>Map<string, T>\<close>: insertion ordered,
  \<open>set\<close> on a key that is present replaces the value in place, \<open>get\<close> of a key that is
  absent is \<open>undefined\<close>. An association list with \<open>AList.update\<close> and \<open>AList.delete\<close>
  behaves so. \<open>ObservableMap.set\<close> refuses the value \<open>undefined\<close>: it throws
  \<open>Error('Cannot set an undefined value, use remove')\<close> and leaves the map as it was.
  The inner map's own signal has no subscriber in this class and is left out.
\<close>

type_synonym jsmap = "(string \<times> jsval) list"

definition om_set :: "jsmap \<Rightarrow> string \<Rightarrow> jsval \<Rightarrow> error + jsmap" where
  "om_set m key v = (if v = Undefined then Inl PlainError else Inr (AList.update key v m))"

definition om_get :: "jsmap \<Rightarrow> string \<Rightarrow> jsval" where
  "om_get m key = (case map_of m key of None \<Rightarrow> Undefined | Some v \<Rightarrow> v)"

definition om_has :: "jsmap \<Rightarrow> string \<Rightarrow> bool" where
  "om_has m key = (case map_of m key of None \<Rightarrow> False | Some v \<Rightarrow> True)"

definition om_keys :: "jsmap \<Rightarrow> string list" where
  "om_keys m = map fst m"

definition om_values :: "jsmap \<Rightarrow> jsval list" where
  "om_values m = map snd m"

text \<open>
  The remote \<open>gapi.drive.realtime.CollaborativeMap\<close>, as far as the class uses it: its
  entries, and the number of \<open>VALUE_CHANGED\<close> listeners this adapter has registered on it.
  Remote maps live in a store and are referred to by handle, since the adapter holds a
  reference to an object that it does not own. \<open>set\<close> stores the value it is given under
  the key, \<open>delete\<close> removes the key, \<open>size\<close> counts the entries. After a write the map
  calls its listeners; for a write made through this adapter the event is local, and the
  adapter's listener ignores local events (see \<open>on_value_changed\<close>), so these calls are
  not written out in the methods.
\<close>

type_synonym handle = nat

record gmap =
  entries :: jsmap
  listeners :: nat

datatype change_type = Add | Remove | Change

text \<open>\<open>ObservableMap.IChangedArgs<T>\<close>, the payload of the \<open>changed\<close> signal.\<close>

record changed_args =
  ev_type :: change_type
  ev_key :: string
  oldValue :: jsval
  newValue :: jsval

text \<open>The \<open>VALUE_CHANGED\<close> event of the remote map.\<close>

record value_changed =
  property :: string
  g_oldValue :: jsval
  g_newValue :: jsval
  isLocal :: bool

text \<open>
  What the class does to the world outside its own fields, in the order it does it: an
  emission on \<open>changed\<close>, \<open>clearSignalData(this)\<close>, and the mutating calls on a remote map.
\<close>

datatype effect =
    Emit changed_args
  | ClearSignalData
  | GSet handle string jsval
  | GDelete handle string
  | GAddEventListener handle
  | GRemoveAllEventListeners handle

text \<open>\<open>IRealtimeConverter<T>\<close>: \<open>to\<close> and \<open>from\<close>.\<close>

record converter =
  conv_to :: "jsval \<Rightarrow> jsval"
  conv_from :: "jsval \<Rightarrow> jsval"

text \<open>
  The fields of the class (\<open>_model\<close> is only handed on to the wrappers and is left out),
  the store of remote maps, and the trace of effects.
\<close>

record rtmap =
  isLinkable :: bool
  isLinked :: bool
  priv_converters :: "string \<Rightarrow> converter option"
  priv_gmap :: "handle option"
  priv_map :: jsmap
  priv_isDisposed :: bool
  remotes :: "handle \<Rightarrow> gmap"
  trace :: "effect list"

text \<open>
  The constructor: \<open>converters || new Map()\<close>, an empty \<open>ObservableMap\<close>, and the field
  initialisers \<open>_gmap = null\<close>, \<open>_isDisposed = false\<close>, \<open>isLinkable = isLinked = false\<close>.
\<close>

definition constructor :: "(handle \<Rightarrow> gmap) \<Rightarrow> (string \<Rightarrow> converter option) option \<Rightarrow> rtmap" where
  "constructor world convs =
     \<lparr> isLinkable = False, isLinked = False,
       priv_converters = (case convs of None \<Rightarrow> Map.empty | Some c \<Rightarrow> c),
       priv_gmap = None, priv_map = [], priv_isDisposed = False,
       remotes = world, trace = [] \<rparr>"

definition emit :: "rtmap \<Rightarrow> changed_args \<Rightarrow> rtmap" where
  "emit s args = s\<lparr>trace := trace s @ [Emit args]\<rparr>"

text \<open>\<open>this._gmap.set(key, v)\<close> and \<open>this._gmap.delete(key)\<close> on the map with handle \<open>a\<close>.\<close>

definition gmap_set :: "rtmap \<Rightarrow> handle \<Rightarrow> string \<Rightarrow> jsval \<Rightarrow> rtmap" where
  "gmap_set s a key v =
     s\<lparr>remotes := (remotes s)(a := (remotes s a)\<lparr>entries := AList.update key v (entries (remotes s a))\<rparr>),
       trace := trace s @ [GSet a key v]\<rparr>"

definition gmap_delete :: "rtmap \<Rightarrow> handle \<Rightarrow> string \<Rightarrow> rtmap" where
  "gmap_delete s a key =
     s\<lparr>remotes := (remotes s)(a := (remotes s a)\<lparr>entries := AList.delete key (entries (remotes s a))\<rparr>),
       trace := trace s @ [GDelete a key]\<rparr>"

subsection \<open>Private helpers\<close>

text \<open>
  \<open>_createNewEntry(key, item)\<close>. A wrapper attaches itself to the item it wraps; that acts
  on the item and on the new object, not on the fields of this map or on the maps of the
  store, and leaves no mark on the state. With a converter for the key, \<open>link\<close> is called
  on \<open>to(newEntry)\<close>, a TypeError when that value has no such method; the call itself
  ties two objects outside the state together.
\<close>

definition createNewEntry :: "rtmap \<Rightarrow> string \<Rightarrow> jsval \<Rightarrow> error + jsval" where
  "createNewEntry s key item =
     (if \<not> truthy item then Inr item
      else if typeTag item = Some ''List'' then
        (let vec = RtVector item in
         case priv_converters s key of
           Some c \<Rightarrow>
             (let newEntry = conv_from c vec in
              if hasLink (conv_to c newEntry) then Inr newEntry else Inl TypeError)
         | None \<Rightarrow> Inr vec)
      else if typeTag item = Some ''EditableString'' then Inr (RtString item)
      else if typeTag item = Some ''Map'' then Inr (RtMap item)
      else Inr item)"

text \<open>
  \<open>_createNewGoogleEntry(key, item)\<close>. \<open>toGoogleSynchronizable\<close> is imported from
  \<open>./utils\<close>; it is the parameter \<open>tgs\<close> here and in every method that reaches it.
\<close>

definition createNewGoogleEntry :: "(jsval \<Rightarrow> jsval) \<Rightarrow> rtmap \<Rightarrow> string \<Rightarrow> jsval \<Rightarrow> jsval" where
  "createNewGoogleEntry tgs s key item =
     (case priv_converters s key of
        Some c \<Rightarrow> tgs (conv_to c item)
      | None \<Rightarrow> item)"

subsection \<open>Properties and methods\<close>

text \<open>\<open>get size()\<close>: \<open>this._gmap.size\<close>, a TypeError while \<open>_gmap\<close> is \<open>null\<close>.\<close>

definition size_prop :: "rtmap \<Rightarrow> error + nat" where
  "size_prop s =
     (case priv_gmap s of
        None \<Rightarrow> Inl TypeError
      | Some a \<Rightarrow> Inr (length (entries (remotes s a))))"

definition isDisposed :: "rtmap \<Rightarrow> bool" where
  "isDisposed s = priv_isDisposed s"

definition googleObject :: "rtmap \<Rightarrow> handle option" where
  "googleObject s = priv_gmap s"

text \<open>
  \<open>set googleObject(map)\<close>: populate the cache from the remote map's entries, then register
  the listener. The loop ends at the first round that throws, with the handle already
  stored and no listener registered.
\<close>

fun populate :: "handle \<Rightarrow> rtmap \<Rightarrow> string list \<Rightarrow> (error + unit) \<times> rtmap" where
  "populate a s [] = (Inr (), s)"
| "populate a s (key # ks) =
     (case createNewEntry s key (om_get (entries (remotes s a)) key) of
        Inl e \<Rightarrow> (Inl e, s)
      | Inr entry \<Rightarrow>
         (case om_set (priv_map s) key entry of
            Inl e \<Rightarrow> (Inl e, s)
          | Inr m \<Rightarrow> populate a (s\<lparr>priv_map := m\<rparr>) ks))"

definition set_googleObject :: "rtmap \<Rightarrow> handle \<Rightarrow> (error + unit) \<times> rtmap" where
  "set_googleObject s a =
     (let s1 = s\<lparr>priv_gmap := Some a\<rparr> in
      case populate a s1 (om_keys (entries (remotes s1 a))) of
        (Inl e, s2) \<Rightarrow> (Inl e, s2)
      | (Inr u, s2) \<Rightarrow>
         (Inr (), s2\<lparr>remotes := (remotes s2)(a := (remotes s2 a)\<lparr>listeners := Suc (listeners (remotes s2 a))\<rparr>),
                     trace := trace s2 @ [GAddEventListener a]\<rparr>))"

text \<open>The listener registered by the setter, run on one event.\<close>

definition classify :: "jsval \<Rightarrow> jsval \<Rightarrow> change_type" where
  "classify old new =
     (if truthy old \<and> truthy new then Change
      else if truthy old \<and> \<not> truthy new then Remove
      else Add)"

definition on_value_changed :: "rtmap \<Rightarrow> value_changed \<Rightarrow> (error + unit) \<times> rtmap" where
  "on_value_changed s evt =
     (if \<not> isLocal evt then
        (let changeType = classify (g_oldValue evt) (g_newValue evt) in
         case createNewEntry s (property evt) (g_newValue evt) of
           Inl e \<Rightarrow> (Inl e, s)
         | Inr entry \<Rightarrow>
            (case om_set (priv_map s) (property evt) entry of
               Inl e \<Rightarrow> (Inl e, s)
             | Inr m \<Rightarrow>
                (Inr (), emit (s\<lparr>priv_map := m\<rparr>)
                           \<lparr>ev_type = changeType, ev_key = property evt,
                            oldValue = g_oldValue evt, newValue = g_newValue evt\<rparr>)))
      else (Inr (), s))"

text \<open>
  \<open>set(key, value)\<close>. The remote map is written first; when \<open>_map.set\<close> then throws, the
  remote map has the new entry, the cache has not, and nothing is emitted.
\<close>

definition set_kv :: "(jsval \<Rightarrow> jsval) \<Rightarrow> rtmap \<Rightarrow> string \<Rightarrow> jsval \<Rightarrow> (error + jsval) \<times> rtmap" where
  "set_kv tgs s key val =
     (let oldVal = om_get (priv_map s) key in
      case priv_gmap s of
        None \<Rightarrow> (Inl TypeError, s)
      | Some a \<Rightarrow>
         (let s1 = gmap_set s a key (createNewGoogleEntry tgs s key val) in
          case om_set (priv_map s1) key val of
            Inl e \<Rightarrow> (Inl e, s1)
          | Inr m \<Rightarrow>
             (let s2 = s1\<lparr>priv_map := m\<rparr>;
                  s3 = emit s2 \<lparr>ev_type = (if truthy oldVal then Change else Add), ev_key = key,
                                oldValue = oldVal, newValue = val\<rparr>
              in (Inr oldVal, s3))))"

definition get :: "rtmap \<Rightarrow> string \<Rightarrow> jsval" where
  "get s key = om_get (priv_map s) key"

definition has :: "rtmap \<Rightarrow> string \<Rightarrow> bool" where
  "has s key = om_has (priv_map s) key"

definition keys :: "rtmap \<Rightarrow> string list" where
  "keys s = om_keys (priv_map s)"

definition values_list :: "rtmap \<Rightarrow> jsval list" where
  "values_list s = om_values (priv_map s)"

text \<open>
  \<open>delete(key)\<close>: the cache is written before \<open>_gmap\<close> is dereferenced, so the cache has
  lost the key even when the call throws.
\<close>

definition delete :: "rtmap \<Rightarrow> string \<Rightarrow> (error + jsval) \<times> rtmap" where
  "delete s key =
     (let oldVal = om_get (priv_map s) key;
          s1 = s\<lparr>priv_map := AList.delete key (priv_map s)\<rparr>
      in case priv_gmap s1 of
           None \<Rightarrow> (Inl TypeError, s1)
         | Some a \<Rightarrow>
            (let s2 = gmap_delete s1 a key;
                 s3 = emit s2 \<lparr>ev_type = Remove, ev_key = key,
                               oldValue = oldVal, newValue = Undefined\<rparr>
             in (Inr oldVal, s3)))"

text \<open>\<open>link\<close> and \<open>unlink\<close>: empty bodies.\<close>

definition link :: "rtmap \<Rightarrow> 'm \<Rightarrow> rtmap" where
  "link s m = s"

definition unlink :: "rtmap \<Rightarrow> rtmap" where
  "unlink s = s"

text \<open>\<open>linkSet(key, val, shadowVal)\<close>.\<close>

definition linkSet :: "(jsval \<Rightarrow> jsval) \<Rightarrow> rtmap \<Rightarrow> string \<Rightarrow> jsval \<Rightarrow> jsval \<Rightarrow> (error + unit) \<times> rtmap" where
  "linkSet tgs s key val shadowVal =
     (case om_set (priv_map s) key val of
        Inl e \<Rightarrow> (Inl e, s)
      | Inr m \<Rightarrow>
         (let s1 = s\<lparr>priv_map := m\<rparr> in
          case priv_gmap s1 of
            None \<Rightarrow> (Inl TypeError, s1)
          | Some a \<Rightarrow> (Inr (), gmap_set s1 a key (tgs shadowVal))))"

text \<open>
  \<open>clear()\<close>: the loop over the snapshot \<open>keyList\<close>; each round calls \<open>this.delete\<close> and
  then \<open>this._gmap.delete\<close> once more. An exception ends the loop.
\<close>

fun clear_loop :: "rtmap \<Rightarrow> string list \<Rightarrow> (error + unit) \<times> rtmap" where
  "clear_loop s [] = (Inr (), s)"
| "clear_loop s (k # ks) =
     (case delete s k of
        (Inl e, s1) \<Rightarrow> (Inl e, s1)
      | (Inr v, s1) \<Rightarrow>
         (case priv_gmap s1 of
            None \<Rightarrow> (Inl TypeError, s1)
          | Some a \<Rightarrow> clear_loop (gmap_delete s1 a k) ks))"

definition clear :: "rtmap \<Rightarrow> (error + unit) \<times> rtmap" where
  "clear s = clear_loop s (keys s)"

text \<open>One round of that loop, for a round in which nothing throws.\<close>

definition clear_round :: "handle \<Rightarrow> rtmap \<Rightarrow> string \<Rightarrow> rtmap" where
  "clear_round a s k = gmap_delete (snd (delete s k)) a k"

text \<open>\<open>dispose()\<close>.\<close>

definition dispose :: "rtmap \<Rightarrow> (error + unit) \<times> rtmap" where
  "dispose s =
     (if priv_isDisposed s then (Inr (), s)
      else
        (let s1 = s\<lparr>trace := trace s @ [ClearSignalData]\<rparr> in
         case priv_gmap s1 of
           None \<Rightarrow> (Inl TypeError, s1)
         | Some a \<Rightarrow>
            (let s2 = s1\<lparr>remotes := (remotes s1)(a := (remotes s1 a)\<lparr>listeners := 0\<rparr>),
                         trace := trace s1 @ [GRemoveAllEventListeners a]\<rparr>;
                 s3 = s2\<lparr>priv_map := []\<rparr>;
                 s4 = s3\<lparr>priv_gmap := None\<rparr>;
                 s5 = s4\<lparr>priv_isDisposed := True\<rparr>
             in (Inr (), s5))))"

subsection \<open>Runs of the adapter\<close>

text \<open>
  A remote map is shared: another collaborator, or another object of the same client, can
  write it. Such a write is not an effect of this class and is not in its trace; the
  remote map then calls the registered listeners (\<open>OpValueChanged\<close> below), with
  \<open>isLocal\<close> set when the writer is in the same client.
\<close>

definition remote_set :: "rtmap \<Rightarrow> handle \<Rightarrow> string \<Rightarrow> jsval \<Rightarrow> rtmap" where
  "remote_set s a key v =
     s\<lparr>remotes := (remotes s)(a := (remotes s a)\<lparr>entries := AList.update key v (entries (remotes s a))\<rparr>)\<rparr>"

definition remote_delete :: "rtmap \<Rightarrow> handle \<Rightarrow> string \<Rightarrow> rtmap" where
  "remote_delete s a key =
     s\<lparr>remotes := (remotes s)(a := (remotes s a)\<lparr>entries := AList.delete key (entries (remotes s a))\<rparr>)\<rparr>"

text \<open>
  One thing that happens to an adapter: a call of one of its methods by the host, a call
  of its listener by a remote map, or a write to a remote map by another party. A caller
  that catches an exception goes on with the state the failed call has left.
\<close>

datatype op =
    OpGoogleObject handle
  | OpSet string jsval
  | OpDelete string
  | OpClear
  | OpDispose
  | OpLink
  | OpUnlink
  | OpLinkSet string jsval jsval
  | OpValueChanged value_changed
  | OpRemoteSet handle string jsval
  | OpRemoteDelete handle string

fun step :: "(jsval \<Rightarrow> jsval) \<Rightarrow> rtmap \<Rightarrow> op \<Rightarrow> rtmap" where
  "step tgs s (OpGoogleObject a) = snd (set_googleObject s a)"
| "step tgs s (OpSet k v) = snd (set_kv tgs s k v)"
| "step tgs s (OpDelete k) = snd (delete s k)"
| "step tgs s OpClear = snd (clear s)"
| "step tgs s OpDispose = snd (dispose s)"
| "step tgs s OpLink = link s ()"
| "step tgs s OpUnlink = unlink s"
| "step tgs s (OpLinkSet k v sv) = snd (linkSet tgs s k v sv)"
| "step tgs s (OpValueChanged evt) = snd (on_value_changed s evt)"
| "step tgs s (OpRemoteSet a k v) = remote_set s a k v"
| "step tgs s (OpRemoteDelete a k) = remote_delete s a k"

definition run :: "(jsval \<Rightarrow> jsval) \<Rightarrow> rtmap \<Rightarrow> op list \<Rightarrow> rtmap" where
  "run tgs s ops = foldl (step tgs) s ops"

text \<open>
  \<open>throws tgs s x\<close>: in state \<open>s\<close> the call \<open>x\<close> ends with an exception. \<open>all_return tgs s xs\<close>:
  every call of the run \<open>xs\<close> from \<open>s\<close> returns.
\<close>

fun throws :: "(jsval \<Rightarrow> jsval) \<Rightarrow> rtmap \<Rightarrow> op \<Rightarrow> bool" where
  "throws tgs s (OpGoogleObject a) = isl (fst (set_googleObject s a))"
| "throws tgs s (OpSet k v) = isl (fst (set_kv tgs s k v))"
| "throws tgs s (OpDelete k) = isl (fst (delete s k))"
| "throws tgs s OpClear = isl (fst (clear s))"
| "throws tgs s OpDispose = isl (fst (dispose s))"
| "throws tgs s (OpLinkSet k v sv) = isl (fst (linkSet tgs s k v sv))"
| "throws tgs s (OpValueChanged evt) = isl (fst (on_value_changed s evt))"
| "throws tgs s x = False"

fun all_return :: "(jsval \<Rightarrow> jsval) \<Rightarrow> rtmap \<Rightarrow> op list \<Rightarrow> bool" where
  "all_return tgs s [] = True"
| "all_return tgs s (x # xs) = (\<not> throws tgs s x \<and> all_return tgs (step tgs s x) xs)"

text \<open>The payloads emitted on \<open>changed\<close>, read off a trace.\<close>

fun emitted :: "effect list \<Rightarrow> changed_args list" where
  "emitted [] = []"
| "emitted (Emit args # es) = args # emitted es"
| "emitted (e # es) = emitted es"

text \<open>
  \<open>brings k s x\<close>: in state \<open>s\<close>, the step \<open>x\<close> hands the key \<open>k\<close> to the adapter, either from
  the host (\<open>set\<close>, \<open>linkSet\<close>) or from a remote map (an attachment to a map that holds
  \<open>k\<close>, a non-local event for \<open>k\<close>). \<open>untouched k s xs\<close>: no step of the run \<open>xs\<close> from \<open>s\<close>
  does.
\<close>

fun brings :: "string \<Rightarrow> rtmap \<Rightarrow> op \<Rightarrow> bool" where
  "brings k s (OpGoogleObject a) = (k \<in> set (om_keys (entries (remotes s a))))"
| "brings k s (OpSet k' v) = (k' = k)"
| "brings k s (OpLinkSet k' v sv) = (k' = k)"
| "brings k s (OpValueChanged evt) = (property evt = k \<and> \<not> isLocal evt)"
| "brings k s x = False"

fun untouched :: "(jsval \<Rightarrow> jsval) \<Rightarrow> string \<Rightarrow> rtmap \<Rightarrow> op list \<Rightarrow> bool" where
  "untouched tgs k s [] = True"
| "untouched tgs k s (x # xs) = (\<not> brings k s x \<and> untouched tgs k (step tgs s x) xs)"

text \<open>The mutating methods of the observable map surface, and the keys a run sets.\<close>

fun local_method :: "op \<Rightarrow> bool" where
  "local_method (OpSet k v) = True"
| "local_method (OpDelete k) = True"
| "local_method OpClear = True"
| "local_method x = False"

fun keys_set :: "op list \<Rightarrow> string list" where
  "keys_set [] = []"
| "keys_set (OpSet k v # xs) = k # keys_set xs"
| "keys_set (x # xs) = keys_set xs"

subsection \<open>Example inputs\<close>

text \<open>
  A world of empty remote maps, a world whose maps hold the key \<open>a\<close>, and a stand-in for
  \<open>toGoogleSynchronizable\<close> that hands a value on unchanged; the examples apply it to
  plain numbers and strings only.
\<close>

definition world0 :: "handle \<Rightarrow> gmap" where
  "world0 = (\<lambda>h. \<lparr>entries = [], listeners = 0\<rparr>)"

definition world_a :: "handle \<Rightarrow> gmap" where
  "world_a = (\<lambda>h. \<lparr>entries = [(''a'', JNum 1)], listeners = 0\<rparr>)"

definition toGS_plain :: "jsval \<Rightarrow> jsval" where
  "toGS_plain = (\<lambda>v. v)"

text \<open>An adapter attached to the remote map 0, after \<open>set('a', 1)\<close> and \<open>set('b', 'x')\<close>.\<close>

definition demo_state :: rtmap where
  "demo_state = run toGS_plain (constructor world0 None)
     [OpGoogleObject 0, OpSet ''a'' (JNum 1), OpSet ''b'' (JStr ''x'')]"

text \<open>An adapter attached to the remote map 0, after \<open>set('n', 0)\<close>.\<close>

definition zero_state :: rtmap where
  "zero_state = run toGS_plain (constructor world0 None) [OpGoogleObject 0, OpSet ''n'' (JNum 0)]"

text \<open>
  An adapter with a converter for the key \<open>a\<close>, whose \<open>to\<close> turns a number into a string,
  attached to the remote map 0.
\<close>

definition num_converter :: converter where
  "num_converter =
     \<lparr>conv_to = (\<lambda>v. case v of JNum n \<Rightarrow> JStr (if n = 1 then ''one'' else ''many'') | _ \<Rightarrow> v),
      conv_from = (\<lambda>v. case v of JStr w \<Rightarrow> JNum (if w = ''one'' then 1 else 2) | _ \<Rightarrow> v)\<rparr>"

definition conv_state :: rtmap where
  "conv_state = run toGS_plain (constructor world0 (Some [''a'' \<mapsto> num_converter])) [OpGoogleObject 0]"

text \<open>
  The adapter of \<open>demo_state\<close>, after a collaborator has deleted \<open>a\<close> from the remote map
  and the listener has been called with the (non-local) event.
\<close>

definition removed_state :: rtmap where
  "removed_state = run toGS_plain demo_state
     [OpRemoteDelete 0 ''a'',
      OpValueChanged \<lparr>property = ''a'', g_oldValue = JNum 1, g_newValue = Null, isLocal = False\<rparr>]"

text \<open>An adapter that was attached to the remote map 0 and then to the remote map 1.\<close>

definition reattached_state :: rtmap where
  "reattached_state = run toGS_plain (constructor world0 None) [OpGoogleObject 0, OpGoogleObject 1]"

text \<open>A sequence of local methods.\<close>

definition mixed_ops :: "op list" where
  "mixed_ops = [OpSet ''a'' (JNum 1), OpSet ''b'' (JNum 2), OpDelete ''b'', OpClear,
     OpSet ''a'' (JNum 2), OpSet ''b'' (JNum 3)]"

text \<open>
  An adapter attached to a remote map that held \<open>a\<close>; another object of the same client
  has since deleted \<open>a\<close> and set \<open>c\<close>, and the listener has been called with both (local)
  events.
\<close>

definition diverged_state :: rtmap where
  "diverged_state = run toGS_plain (constructor world_a None)
     [OpGoogleObject 0,
      OpRemoteDelete 0 ''a'',
      OpValueChanged \<lparr>property = ''a'', g_oldValue = JNum 1, g_newValue = Null, isLocal = True\<rparr>,
      OpRemoteSet 0 ''c'' (JNum 1),
      OpValueChanged \<lparr>property = ''c'', g_oldValue = Null, g_newValue = JNum 1, isLocal = True\<rparr>]"

section \<open>Properties\<close>

subsection \<open>Frame lemmas\<close>

lemma populate_frame:
  "remotes (snd (populate a s ks)) = remotes s \<and> priv_gmap (snd (populate a s ks)) = priv_gmap s
   \<and> priv_converters (snd (populate a s ks)) = priv_converters s
   \<and> trace (snd (populate a s ks)) = trace s
   \<and> priv_isDisposed (snd (populate a s ks)) = priv_isDisposed s
   \<and> isLinkable (snd (populate a s ks)) = isLinkable s
   \<and> isLinked (snd (populate a s ks)) = isLinked s"
  by (induction ks arbitrary: s) (simp_all split: sum.split)

text \<open>The setter, in terms of its loop: the outcome of the loop decides between two states.\<close>

lemma set_googleObject_cases:
  fixes s a
  defines "p \<equiv> populate a (s\<lparr>priv_gmap := Some a\<rparr>) (om_keys (entries (remotes s a)))"
  shows "(\<exists>e. fst p = Inl e \<and> set_googleObject s a = (Inl e, snd p))
    \<or> (fst p = Inr () \<and> set_googleObject s a =
         (Inr (), (snd p)\<lparr>remotes := (remotes s)(a := (remotes s a)\<lparr>listeners := Suc (listeners (remotes s a))\<rparr>),
                         trace := trace s @ [GAddEventListener a]\<rparr>))"
proof -
  obtain r s2 where eq: "p = (r, s2)" by (cases p)
  have fr: "remotes s2 = remotes s" "trace s2 = trace s"
    using populate_frame [of a "s\<lparr>priv_gmap := Some a\<rparr>" "om_keys (entries (remotes s a))"] eq
    by (simp_all add: p_def)
  show ?thesis
    using eq fr unfolding p_def by (cases r) (simp_all add: set_googleObject_def Let_def)
qed

lemma set_googleObject_cache:
  "priv_map (snd (set_googleObject s a))
     = priv_map (snd (populate a (s\<lparr>priv_gmap := Some a\<rparr>) (om_keys (entries (remotes s a)))))"
  using set_googleObject_cases [of a s] by auto

lemma links_set_googleObject:
  "isLinkable (snd (set_googleObject s a)) = isLinkable s
   \<and> isLinked (snd (set_googleObject s a)) = isLinked s"
  using set_googleObject_cases [of a s]
    populate_frame [of a "s\<lparr>priv_gmap := Some a\<rparr>" "om_keys (entries (remotes s a))"]
  by auto

lemma links_clear_loop:
  "isLinkable (snd (clear_loop s ks)) = isLinkable s \<and> isLinked (snd (clear_loop s ks)) = isLinked s"
  by (induction ks arbitrary: s)
     (simp_all add: delete_def gmap_delete_def emit_def Let_def split: option.splits)

lemma links_step:
  "isLinkable (step tgs s x) = isLinkable s \<and> isLinked (step tgs s x) = isLinked s"
proof (cases x)
  case (OpGoogleObject a)
  then show ?thesis by (simp add: links_set_googleObject)
next
  case OpClear
  then show ?thesis by (simp add: clear_def links_clear_loop)
qed (simp_all add: set_kv_def delete_def dispose_def link_def unlink_def linkSet_def
       on_value_changed_def gmap_set_def gmap_delete_def emit_def remote_set_def remote_delete_def
       Let_def split: option.splits sum.splits)

lemma links_run:
  "isLinkable (run tgs s ops) = isLinkable s \<and> isLinked (run tgs s ops) = isLinked s"
  unfolding run_def by (induction ops arbitrary: s) (simp_all add: links_step)

subsection \<open>C8: link and unlink\<close>

text \<open>
  Claim C8. \<open>link(map)\<close> and \<open>unlink()\<close> are no-ops. In every state that an adapter reaches
  from its construction, by any sequence of method calls and listener calls, either call
  returns the state as it was: the local cache, every remote map, \<open>isLinkable\<close>, \<open>isLinked\<close>
  and the trace of effects (so no change event is emitted) are unchanged, and \<open>isLinkable\<close>
  and \<open>isLinked\<close> are false.
\<close>

theorem link_unlink_noop:
  fixes m :: 'm and tgs world convs ops
  defines "s \<equiv> run tgs (constructor world convs) ops"
  shows "link s m = s \<and> unlink s = s
    \<and> priv_map (link s m) = priv_map s \<and> priv_map (unlink s) = priv_map s
    \<and> remotes (link s m) = remotes s \<and> remotes (unlink s) = remotes s
    \<and> trace (link s m) = trace s \<and> trace (unlink s) = trace s
    \<and> isLinkable (link s m) = False \<and> isLinked (link s m) = False
    \<and> isLinkable (unlink s) = False \<and> isLinked (unlink s) = False"
  by (simp add: link_def unlink_def s_def links_run constructor_def)

subsection \<open>The example states, evaluated\<close>

lemmas method_defs = set_kv_def delete_def dispose_def link_def unlink_def linkSet_def
  on_value_changed_def gmap_set_def gmap_delete_def emit_def set_googleObject_def om_set_def
  clear_def createNewEntry_def createNewGoogleEntry_def constructor_def run_def
  remote_set_def remote_delete_def classify_def

lemmas reader_defs = get_def has_def keys_def om_get_def om_has_def om_keys_def size_prop_def
  isDisposed_def

lemma demo_state_fields:
  "priv_gmap demo_state = Some 0"
  "priv_map demo_state = [(''a'', JNum 1), (''b'', JStr ''x'')]"
  "entries (remotes demo_state 0) = [(''a'', JNum 1), (''b'', JStr ''x'')]"
  "listeners (remotes demo_state 0) = 1"
  "priv_isDisposed demo_state = False"
  "priv_converters demo_state = Map.empty"
  "trace demo_state = [GAddEventListener 0, GSet 0 ''a'' (JNum 1),
         Emit \<lparr>ev_type = Add, ev_key = ''a'', oldValue = Undefined, newValue = JNum 1\<rparr>,
         GSet 0 ''b'' (JStr ''x''),
         Emit \<lparr>ev_type = Add, ev_key = ''b'', oldValue = Undefined, newValue = JStr ''x''\<rparr>]"
  unfolding demo_state_def
  by (simp_all add: method_defs om_get_def om_keys_def world0_def toGS_plain_def Let_def)

lemma zero_state_fields:
  "priv_gmap zero_state = Some 0"
  "priv_map zero_state = [(''n'', JNum 0)]"
  "entries (remotes zero_state 0) = [(''n'', JNum 0)]"
  "priv_converters zero_state = Map.empty"
  "trace zero_state = [GAddEventListener 0, GSet 0 ''n'' (JNum 0),
         Emit \<lparr>ev_type = Add, ev_key = ''n'', oldValue = Undefined, newValue = JNum 0\<rparr>]"
  unfolding zero_state_def
  by (simp_all add: method_defs om_get_def om_keys_def world0_def toGS_plain_def Let_def)

lemma conv_state_fields:
  "priv_gmap conv_state = Some 0"
  "priv_map conv_state = []"
  "entries (remotes conv_state 0) = []"
  "priv_converters conv_state = [''a'' \<mapsto> num_converter]"
  unfolding conv_state_def
  by (simp_all add: method_defs om_get_def om_keys_def world0_def toGS_plain_def Let_def)

lemma diverged_state_fields:
  "priv_gmap diverged_state = Some 0"
  "priv_map diverged_state = [(''a'', JNum 1)]"
  "entries (remotes diverged_state 0) = [(''c'', JNum 1)]"
  unfolding diverged_state_def
  by (simp_all add: method_defs om_get_def om_keys_def world_a_def toGS_plain_def Let_def)

lemma reattached_state_fields:
  "priv_gmap reattached_state = Some 1"
  "priv_map reattached_state = []"
  "priv_isDisposed reattached_state = False"
  "listeners (remotes reattached_state 0) = 1"
  "listeners (remotes reattached_state 1) = 1"
  "entries (remotes reattached_state 0) = []"
  "trace reattached_state = [GAddEventListener 0, GAddEventListener 1]"
  unfolding reattached_state_def
  by (simp_all add: method_defs om_get_def om_keys_def world0_def toGS_plain_def Let_def)

lemma emitted_append [simp]: "emitted (xs @ ys) = emitted xs @ emitted ys"
  by (induction xs rule: emitted.induct) simp_all

subsection \<open>delete\<close>

lemma delete_attached:
  assumes "priv_gmap s = Some a"
  shows "delete s k = (Inr (get s k),
     s\<lparr>priv_map := AList.delete k (priv_map s),
       remotes := (remotes s)(a := (remotes s a)\<lparr>entries := AList.delete k (entries (remotes s a))\<rparr>),
       trace := trace s @ [GDelete a k,
          Emit \<lparr>ev_type = Remove, ev_key = k, oldValue = get s k, newValue = Undefined\<rparr>]\<rparr>)"
  using assms by (simp add: delete_def gmap_delete_def emit_def get_def Let_def)

lemma om_has_iff: "om_has m k = (k \<in> fst ` set m)"
  using map_of_eq_None_iff [of m k] by (cases "map_of m k") (simp_all add: om_has_def)

lemma om_get_absent: "k \<notin> fst ` set m \<Longrightarrow> om_get m k = Undefined"
  using map_of_eq_None_iff [of m k] by (simp add: om_get_def)

subsection \<open>C4: delete\<close>

text \<open>
  Claim C4. On an adapter whose remote handle is attached, \<open>delete(k)\<close> returns the value
  the local cache held at \<open>k\<close> (\<open>undefined\<close> if it held none), removes \<open>k\<close> from the local
  cache and from the remote map, and emits one \<open>remove\<close> event whose \<open>oldValue\<close> is that
  prior value and whose \<open>newValue\<close> is \<open>undefined\<close>; afterwards \<open>has(k)\<close> is false.
\<close>

theorem delete_removes_entry:
  assumes "priv_gmap s = Some a"
  shows "fst (delete s k) = Inr (case map_of (priv_map s) k of None \<Rightarrow> Undefined | Some v \<Rightarrow> v)
    \<and> has (snd (delete s k)) k = False
    \<and> k \<notin> set (keys (snd (delete s k)))
    \<and> map_of (entries (remotes (snd (delete s k)) a)) k = None
    \<and> k \<notin> fst ` set (entries (remotes (snd (delete s k)) a))
    \<and> emitted (trace (snd (delete s k))) = emitted (trace s) @
          [\<lparr>ev_type = Remove, ev_key = k,
            oldValue = (case map_of (priv_map s) k of None \<Rightarrow> Undefined | Some v \<Rightarrow> v),
            newValue = Undefined\<rparr>]
    \<and> trace (snd (delete s k)) = trace s @ [GDelete a k,
          Emit \<lparr>ev_type = Remove, ev_key = k,
                oldValue = (case map_of (priv_map s) k of None \<Rightarrow> Undefined | Some v \<Rightarrow> v),
                newValue = Undefined\<rparr>]"
  using assms
  by (simp add: delete_attached has_def keys_def om_has_iff om_keys_def get_def om_get_def
      AList.delete_conv' AList.delete_notin_dom)

theorem delete_removes_entry_witness:
  "priv_gmap demo_state = Some 0
   \<and> has demo_state ''a''
   \<and> fst (delete demo_state ''a'') = Inr (JNum 1)
   \<and> has (snd (delete demo_state ''a'')) ''a'' = False
   \<and> keys (snd (delete demo_state ''a'')) = [''b'']
   \<and> entries (remotes (snd (delete demo_state ''a'')) 0) = [(''b'', JStr ''x'')]
   \<and> emitted (trace (snd (delete demo_state ''a''))) = emitted (trace demo_state) @
          [\<lparr>ev_type = Remove, ev_key = ''a'', oldValue = JNum 1, newValue = Undefined\<rparr>]"
  using delete_removes_entry [of demo_state 0 "''a''"]
  by (simp add: demo_state_fields delete_attached reader_defs)

subsection \<open>C10: delete of a key that is not cached\<close>

text \<open>
  Claim C10. On an attached adapter, \<open>delete(k)\<close> for a key \<open>k\<close> that the local cache does
  not hold returns \<open>undefined\<close>, still calls \<open>delete\<close> on the remote map, and still emits a
  \<open>remove\<close> event, whose \<open>oldValue\<close> and \<open>newValue\<close> are both \<open>undefined\<close>; the cache is
  as it was. The effects are the same two as for a key that is present.
\<close>

theorem delete_absent_key:
  assumes "priv_gmap s = Some a" and "has s k = False"
  shows "fst (delete s k) = Inr Undefined
    \<and> trace (snd (delete s k)) = trace s @ [GDelete a k,
          Emit \<lparr>ev_type = Remove, ev_key = k, oldValue = Undefined, newValue = Undefined\<rparr>]
    \<and> emitted (trace (snd (delete s k))) = emitted (trace s) @
          [\<lparr>ev_type = Remove, ev_key = k, oldValue = Undefined, newValue = Undefined\<rparr>]
    \<and> priv_map (snd (delete s k)) = priv_map s
    \<and> entries (remotes (snd (delete s k)) a) = AList.delete k (entries (remotes s a))"
  using assms
  by (simp add: delete_attached has_def om_has_iff get_def om_get_absent)

theorem delete_absent_key_witness:
  "priv_gmap demo_state = Some 0 \<and> has demo_state ''z'' = False
    \<and> fst (delete demo_state ''z'') = Inr Undefined
    \<and> trace (snd (delete demo_state ''z'')) = trace demo_state @ [GDelete 0 ''z'',
          Emit \<lparr>ev_type = Remove, ev_key = ''z'', oldValue = Undefined, newValue = Undefined\<rparr>]
    \<and> keys (snd (delete demo_state ''z'')) = [''a'', ''b'']"
  using delete_absent_key [of demo_state 0 "''z''"]
  by (simp add: demo_state_fields reader_defs)

subsection \<open>C6: dispose\<close>

lemma dispose_attached:
  assumes "priv_gmap s = Some a" and "priv_isDisposed s = False"
  shows "dispose s = (Inr (),
     s\<lparr>priv_gmap := None, priv_map := [], priv_isDisposed := True,
       remotes := (remotes s)(a := (remotes s a)\<lparr>listeners := 0\<rparr>),
       trace := trace s @ [ClearSignalData, GRemoveAllEventListeners a]\<rparr>)"
  using assms by (simp add: dispose_def Let_def)

lemma dispose_unattached:
  assumes "priv_gmap s = None" and "priv_isDisposed s = False"
  shows "dispose s = (Inl TypeError, s\<lparr>trace := trace s @ [ClearSignalData]\<rparr>)"
  using assms by (simp add: dispose_def Let_def)

lemma dispose_disposed: "priv_isDisposed s \<Longrightarrow> dispose s = (Inr (), s)"
  by (simp add: dispose_def)

lemma run_dispose_disposed:
  "priv_isDisposed s \<Longrightarrow> run tgs s (replicate n OpDispose) = s"
  by (induction n) (simp_all add: run_def dispose_disposed)

lemma disposed_clear_loop:
  "priv_isDisposed (snd (clear_loop s ks)) = priv_isDisposed s"
  by (induction ks arbitrary: s)
     (simp_all add: delete_def gmap_delete_def emit_def Let_def split: option.splits)

lemma disposed_step:
  assumes "priv_isDisposed s"
  shows "priv_isDisposed (step tgs s x)"
proof (cases x)
  case (OpGoogleObject a)
  with assms set_googleObject_cases [of a s]
    populate_frame [of a "s\<lparr>priv_gmap := Some a\<rparr>" "om_keys (entries (remotes s a))"]
  show ?thesis by auto
next
  case OpClear
  with assms show ?thesis by (simp add: clear_def disposed_clear_loop)
next
  case OpDispose
  with assms show ?thesis by (simp add: dispose_disposed)
qed (use assms in \<open>simp_all add: set_kv_def delete_def link_def unlink_def linkSet_def
       on_value_changed_def gmap_set_def gmap_delete_def emit_def remote_set_def remote_delete_def
       Let_def split: option.splits sum.splits\<close>)

lemma disposed_run:
  "priv_isDisposed s \<Longrightarrow> priv_isDisposed (run tgs s ops)"
  unfolding run_def by (induction ops arbitrary: s) (simp_all add: disposed_step)

text \<open>
  Claim C6 as stated fails in two states. On an adapter that was never attached, \<open>_gmap\<close>
  is \<open>null\<close>: the first \<open>dispose()\<close> throws a TypeError after \<open>clearSignalData\<close>, leaves
  \<open>isDisposed\<close> false, and the second call does the same again. On an adapter that was
  attached to the remote map 0 and then to the remote map 1, \<open>dispose()\<close> removes the
  listeners of map 1 only: the listener on map 0 stays registered, and its next non-local
  event puts a key into the cache of the disposed adapter.
\<close>

theorem dispose_throws_unattached_and_keeps_old_listener:
  "fst (dispose (constructor world0 None)) = Inl TypeError
   \<and> isDisposed (snd (dispose (constructor world0 None))) = False
   \<and> trace (snd (dispose (constructor world0 None))) = [ClearSignalData]
   \<and> fst (dispose (snd (dispose (constructor world0 None)))) = Inl TypeError
   \<and> trace (snd (dispose (snd (dispose (constructor world0 None)))))
        = [ClearSignalData, ClearSignalData]
   \<and> priv_gmap reattached_state = Some 1
   \<and> isDisposed reattached_state = False
   \<and> listeners (remotes reattached_state 0) = 1
   \<and> fst (dispose reattached_state) = Inr ()
   \<and> isDisposed (snd (dispose reattached_state)) = True
   \<and> listeners (remotes (snd (dispose reattached_state)) 0) = 1
   \<and> keys (snd (on_value_changed (snd (dispose reattached_state))
          \<lparr>property = ''a'', g_oldValue = Null, g_newValue = JNum 1, isLocal = False\<rparr>)) = [''a'']"
  by (simp add: dispose_unattached dispose_attached reattached_state_fields constructor_def
      isDisposed_def keys_def om_keys_def on_value_changed_def createNewEntry_def om_set_def
      emit_def classify_def)

text \<open>
  Claim C6, amended. On an adapter whose remote handle is attached and that is not yet
  disposed, the first \<open>dispose()\<close> returns without error, removes all listeners from the
  remote map that is attached at that moment (and changes no other remote map), clears the
  local cache and sets \<open>isDisposed\<close>; its effects are one \<open>clearSignalData\<close> and one
  \<open>removeAllEventListeners\<close>. Every later call returns without error and leaves the whole
  state, trace of effects included, as it finds it: as the first call left it when the
  calls follow one another, and as whatever has happened to the adapter since has left it
  otherwise.
\<close>

theorem dispose_idempotent:
  assumes "priv_gmap s = Some a" and "isDisposed s = False"
  shows "fst (dispose s) = Inr ()
    \<and> listeners (remotes (snd (dispose s)) a) = 0
    \<and> remotes (snd (dispose s)) = (remotes s)(a := (remotes s a)\<lparr>listeners := 0\<rparr>)
    \<and> priv_map (snd (dispose s)) = []
    \<and> keys (snd (dispose s)) = []
    \<and> isDisposed (snd (dispose s)) = True
    \<and> trace (snd (dispose s)) = trace s @ [ClearSignalData, GRemoveAllEventListeners a]
    \<and> dispose (snd (dispose s)) = (Inr (), snd (dispose s))
    \<and> run tgs (snd (dispose s)) (replicate n OpDispose) = snd (dispose s)
    \<and> dispose (run tgs (snd (dispose s)) ops) = (Inr (), run tgs (snd (dispose s)) ops)"
proof -
  have d: "priv_isDisposed (snd (dispose s))"
    using assms by (simp add: isDisposed_def dispose_attached)
  then have "priv_isDisposed (run tgs (snd (dispose s)) ops)"
    by (rule disposed_run)
  then have later: "dispose (run tgs (snd (dispose s)) ops) = (Inr (), run tgs (snd (dispose s)) ops)"
    by (rule dispose_disposed)
  have again: "dispose (snd (dispose s)) = (Inr (), snd (dispose s))"
    and rep: "run tgs (snd (dispose s)) (replicate n OpDispose) = snd (dispose s)"
    using d by (simp_all add: dispose_disposed run_dispose_disposed)
  show ?thesis
    using assms again rep later
    by (simp add: isDisposed_def dispose_attached keys_def om_keys_def)
qed

theorem dispose_idempotent_witness:
  "priv_gmap demo_state = Some 0 \<and> isDisposed demo_state = False
    \<and> listeners (remotes demo_state 0) = 1
    \<and> fst (dispose demo_state) = Inr ()
    \<and> listeners (remotes (snd (dispose demo_state)) 0) = 0
    \<and> keys (snd (dispose demo_state)) = []
    \<and> isDisposed (snd (dispose demo_state)) = True
    \<and> trace (snd (dispose demo_state)) = trace demo_state @ [ClearSignalData, GRemoveAllEventListeners 0]
    \<and> dispose (snd (dispose demo_state)) = (Inr (), snd (dispose demo_state))
    \<and> run toGS_plain (snd (dispose demo_state)) [OpDispose, OpDispose] = snd (dispose demo_state)
    \<and> priv_gmap reattached_state = Some 1 \<and> isDisposed reattached_state = False
    \<and> fst (dispose reattached_state) = Inr ()
    \<and> listeners (remotes (snd (dispose reattached_state)) 1) = 0
    \<and> listeners (remotes (snd (dispose reattached_state)) 0) = listeners (remotes reattached_state 0)
    \<and> dispose (snd (dispose reattached_state)) = (Inr (), snd (dispose reattached_state))
    \<and> fst (dispose (run toGS_plain (snd (dispose reattached_state))
          [OpValueChanged \<lparr>property = ''a'', g_oldValue = Null, g_newValue = JNum 1, isLocal = False\<rparr>]))
        = Inr ()"
  using dispose_idempotent [where s = demo_state and a = 0 and n = 2 and tgs = toGS_plain
      and ops = "[]"]
    dispose_idempotent [where s = reattached_state and a = 1 and n = 0 and tgs = toGS_plain
      and ops = "[OpValueChanged \<lparr>property = ''a'', g_oldValue = Null, g_newValue = JNum 1, isLocal = False\<rparr>]"]
  by (simp add: demo_state_fields reattached_state_fields isDisposed_def numeral_2_eq_2)

subsection \<open>set\<close>

lemma set_kv_attached:
  assumes "priv_gmap s = Some a" and "v \<noteq> Undefined"
  shows "set_kv tgs s k v = (Inr (get s k),
     s\<lparr>priv_map := AList.update k v (priv_map s),
       remotes := (remotes s)(a := (remotes s a)\<lparr>entries :=
          AList.update k (createNewGoogleEntry tgs s k v) (entries (remotes s a))\<rparr>),
       trace := trace s @ [GSet a k (createNewGoogleEntry tgs s k v),
          Emit \<lparr>ev_type = (if truthy (get s k) then Change else Add), ev_key = k,
                oldValue = get s k, newValue = v\<rparr>]\<rparr>)"
  using assms by (simp add: set_kv_def gmap_set_def emit_def get_def om_set_def Let_def)

text \<open>\<open>set(k, undefined)\<close>: the remote map is written, then \<open>_map.set\<close> throws.\<close>

lemma set_kv_undefined:
  assumes "priv_gmap s = Some a"
  shows "set_kv tgs s k Undefined = (Inl PlainError,
     s\<lparr>remotes := (remotes s)(a := (remotes s a)\<lparr>entries :=
          AList.update k (createNewGoogleEntry tgs s k Undefined) (entries (remotes s a))\<rparr>),
       trace := trace s @ [GSet a k (createNewGoogleEntry tgs s k Undefined)]\<rparr>)"
  using assms by (simp add: set_kv_def gmap_set_def om_set_def Let_def)

text \<open>
  What \<open>set\<close> does on an attached adapter, for every key and every value other than
  \<open>undefined\<close>.
\<close>

lemma set_kv_effects:
  assumes "priv_gmap s = Some a" and "v \<noteq> Undefined"
  shows "fst (set_kv tgs s k v) = Inr (get s k)
    \<and> get (snd (set_kv tgs s k v)) k = v
    \<and> has (snd (set_kv tgs s k v)) k = True
    \<and> map_of (entries (remotes (snd (set_kv tgs s k v)) a)) k = Some (createNewGoogleEntry tgs s k v)
    \<and> emitted (trace (snd (set_kv tgs s k v))) = emitted (trace s) @
         [\<lparr>ev_type = (if truthy (get s k) then Change else Add), ev_key = k,
           oldValue = get s k, newValue = v\<rparr>]"
  using assms
  by (simp add: set_kv_attached get_def has_def om_get_def om_has_def AList.update_conv')

subsection \<open>C1: set\<close>

text \<open>
  Claim C1, evaluated where it fails. The cache of \<open>zero_state\<close> holds the key \<open>n\<close> with the
  value \<open>0\<close>. \<open>set('n', 1)\<close> returns the previous value \<open>0\<close>, writes \<open>1\<close> to the cache and to
  the remote map, and emits one event; the event is tagged \<open>add\<close> although the key was
  present, because the tag is chosen by the truthiness of the previous value.
\<close>

theorem set_falsy_previous_value_tagged_add:
  "has zero_state ''n'' = True
   \<and> get zero_state ''n'' = JNum 0
   \<and> fst (set_kv toGS_plain zero_state ''n'' (JNum 1)) = Inr (JNum 0)
   \<and> get (snd (set_kv toGS_plain zero_state ''n'' (JNum 1))) ''n'' = JNum 1
   \<and> has (snd (set_kv toGS_plain zero_state ''n'' (JNum 1))) ''n'' = True
   \<and> entries (remotes (snd (set_kv toGS_plain zero_state ''n'' (JNum 1))) 0) = [(''n'', JNum 1)]
   \<and> emitted (trace (snd (set_kv toGS_plain zero_state ''n'' (JNum 1)))) =
        emitted (trace zero_state) @
        [\<lparr>ev_type = Add, ev_key = ''n'', oldValue = JNum 0, newValue = JNum 1\<rparr>]"
  by (simp add: set_kv_attached zero_state_fields reader_defs createNewGoogleEntry_def)

subsection \<open>The listener\<close>

lemma listener_local:
  "isLocal evt \<Longrightarrow> on_value_changed s evt = (Inr (), s)"
  by (simp add: on_value_changed_def)

lemma listener_nonlocal:
  assumes "isLocal evt = False"
    and "createNewEntry s (property evt) (g_newValue evt) = Inr entry"
    and "entry \<noteq> Undefined"
  shows "on_value_changed s evt = (Inr (),
     s\<lparr>priv_map := AList.update (property evt) entry (priv_map s),
       trace := trace s @
         [Emit \<lparr>ev_type = classify (g_oldValue evt) (g_newValue evt), ev_key = property evt,
                oldValue = g_oldValue evt, newValue = g_newValue evt\<rparr>]\<rparr>)"
  using assms by (simp add: on_value_changed_def emit_def om_set_def Let_def)

text \<open>
  What the listener does with a non-local event whose entry can be built and stored. The
  key of the event is in the cache afterwards, whatever the event.
\<close>

lemma listener_effects:
  assumes "isLocal evt = False"
    and "createNewEntry s (property evt) (g_newValue evt) = Inr entry"
    and "entry \<noteq> Undefined"
  shows "fst (on_value_changed s evt) = Inr ()
    \<and> get (snd (on_value_changed s evt)) (property evt) = entry
    \<and> has (snd (on_value_changed s evt)) (property evt) = True
    \<and> emitted (trace (snd (on_value_changed s evt))) = emitted (trace s) @
         [\<lparr>ev_type = classify (g_oldValue evt) (g_newValue evt), ev_key = property evt,
           oldValue = g_oldValue evt, newValue = g_newValue evt\<rparr>]"
  using assms
  by (simp add: listener_nonlocal get_def has_def om_get_def om_has_def AList.update_conv')

text \<open>
  A non-local event whose new value is \<open>undefined\<close>: \<open>_map.set\<close> throws, the cache is as it
  was and nothing is emitted.
\<close>

lemma listener_undefined:
  assumes "isLocal evt = False" and "g_newValue evt = Undefined"
  shows "on_value_changed s evt = (Inl PlainError, s)"
  using assms by (simp add: on_value_changed_def createNewEntry_def om_set_def)

subsection \<open>C2: the remote change listener\<close>

text \<open>
  Claim C2, evaluated where it fails. A non-local event for the cached key \<open>n\<close> whose old
  value is \<open>0\<close> and whose new value is \<open>5\<close> has both values present, yet the listener
  emits it tagged \<open>add\<close>: it classifies by truthiness. And after a non-local \<open>remove\<close> event
  for the cached key \<open>a\<close> (old value \<open>1\<close>, new value \<open>null\<close>) the cache still has the key:
  the listener stores \<open>null\<close> under it with \<open>_map.set\<close>, so \<open>has('a')\<close> is true and \<open>keys()\<close>
  still lists \<open>a\<close>.
\<close>

theorem listener_misclassifies_and_keeps_removed_key:
  "has zero_state ''n'' = True
   \<and> emitted (trace (snd (on_value_changed zero_state
          \<lparr>property = ''n'', g_oldValue = JNum 0, g_newValue = JNum 5, isLocal = False\<rparr>))) =
       emitted (trace zero_state) @
         [\<lparr>ev_type = Add, ev_key = ''n'', oldValue = JNum 0, newValue = JNum 5\<rparr>]
   \<and> get (snd (on_value_changed zero_state
          \<lparr>property = ''n'', g_oldValue = JNum 0, g_newValue = JNum 5, isLocal = False\<rparr>)) ''n'' = JNum 5
   \<and> emitted (trace (snd (on_value_changed demo_state
          \<lparr>property = ''a'', g_oldValue = JNum 1, g_newValue = Null, isLocal = False\<rparr>))) =
       emitted (trace demo_state) @
         [\<lparr>ev_type = Remove, ev_key = ''a'', oldValue = JNum 1, newValue = Null\<rparr>]
   \<and> has (snd (on_value_changed demo_state
          \<lparr>property = ''a'', g_oldValue = JNum 1, g_newValue = Null, isLocal = False\<rparr>)) ''a'' = True
   \<and> keys (snd (on_value_changed demo_state
          \<lparr>property = ''a'', g_oldValue = JNum 1, g_newValue = Null, isLocal = False\<rparr>)) = [''a'', ''b'']
   \<and> get (snd (on_value_changed demo_state
          \<lparr>property = ''a'', g_oldValue = JNum 1, g_newValue = Null, isLocal = False\<rparr>)) ''a'' = Null"
  by (simp add: on_value_changed_def createNewEntry_def om_set_def emit_def classify_def
      zero_state_fields demo_state_fields reader_defs)

subsection \<open>Which keys a step can add to the cache\<close>

lemma populate_keys:
  "fst ` set (priv_map (snd (populate a s ks))) \<subseteq> fst ` set (priv_map s) \<union> set ks"
proof (induction ks arbitrary: s)
  case Nil
  then show ?case by simp
next
  case (Cons key ks)
  show ?case
  proof (cases "createNewEntry s key (om_get (entries (remotes s a)) key)")
    case (Inl e)
    then show ?thesis by auto
  next
    case (Inr entry)
    show ?thesis
    proof (cases "entry = Undefined")
      case True
      with Inr show ?thesis by (auto simp: om_set_def)
    next
      case False
      have "fst ` set (priv_map (snd (populate a (s\<lparr>priv_map := AList.update key entry (priv_map s)\<rparr>) ks)))
              \<subseteq> fst ` set (AList.update key entry (priv_map s)) \<union> set ks"
        using Cons.IH [of "s\<lparr>priv_map := AList.update key entry (priv_map s)\<rparr>"] by simp
      with Inr False show ?thesis by (auto simp: om_set_def AList.dom_update)
    qed
  qed
qed

lemma set_googleObject_keys:
  "fst ` set (priv_map (snd (set_googleObject s a)))
     \<subseteq> fst ` set (priv_map s) \<union> fst ` set (entries (remotes s a))"
  using populate_keys [of a "s\<lparr>priv_gmap := Some a\<rparr>" "om_keys (entries (remotes s a))"]
  by (simp add: set_googleObject_cache om_keys_def)

lemma delete_keys_subset:
  "fst ` set (priv_map (snd (delete s k))) \<subseteq> fst ` set (priv_map s)"
  using AList.dom_delete_subset [of k "priv_map s"]
  by (simp add: delete_def gmap_delete_def emit_def Let_def split: option.split)

lemma gmap_delete_cache: "priv_map (gmap_delete s a k) = priv_map s"
  by (simp add: gmap_delete_def)

lemma clear_loop_keys_subset:
  "fst ` set (priv_map (snd (clear_loop s ks))) \<subseteq> fst ` set (priv_map s)"
proof (induction ks arbitrary: s)
  case Nil
  then show ?case by simp
next
  case (Cons k ks)
  obtain r s1 where d: "delete s k = (r, s1)" by (cases "delete s k")
  have sub: "fst ` set (priv_map s1) \<subseteq> fst ` set (priv_map s)"
    using delete_keys_subset [of s k] d by simp
  show ?case
  proof (cases r)
    case (Inl e)
    with d sub show ?thesis by simp
  next
    case (Inr v)
    show ?thesis
    proof (cases "priv_gmap s1")
      case None
      with d Inr sub show ?thesis by simp
    next
      case (Some a)
      have "fst ` set (priv_map (snd (clear_loop (gmap_delete s1 a k) ks)))
              \<subseteq> fst ` set (priv_map (gmap_delete s1 a k))"
        by (rule Cons.IH)
      with d Inr Some sub show ?thesis by (simp add: gmap_delete_cache)
    qed
  qed
qed

lemma step_keeps_absent:
  assumes "k \<notin> fst ` set (priv_map s)" and "\<not> brings k s x"
  shows "k \<notin> fst ` set (priv_map (step tgs s x))"
proof (cases x)
  case (OpGoogleObject a)
  with assms set_googleObject_keys [of s a] show ?thesis by (auto simp: om_keys_def)
next
  case (OpSet k' v)
  with assms show ?thesis
    by (simp add: set_kv_def gmap_set_def emit_def om_set_def Let_def AList.dom_update
        split: option.split)
next
  case (OpDelete k')
  with assms delete_keys_subset [of s k'] show ?thesis by auto
next
  case OpClear
  with assms clear_loop_keys_subset [of s "keys s"] show ?thesis by (auto simp: clear_def)
next
  case OpDispose
  with assms show ?thesis by (simp add: dispose_def Let_def split: option.split)
next
  case OpLink
  with assms show ?thesis by (simp add: link_def)
next
  case OpUnlink
  with assms show ?thesis by (simp add: unlink_def)
next
  case (OpLinkSet k' v sv)
  with assms show ?thesis
    by (simp add: linkSet_def gmap_set_def om_set_def Let_def AList.dom_update split: option.split)
next
  case (OpValueChanged evt)
  with assms show ?thesis
    by (auto simp: on_value_changed_def emit_def om_set_def Let_def AList.dom_update
        split: sum.split)
next
  case (OpRemoteSet a k' v)
  with assms show ?thesis by (simp add: remote_set_def)
next
  case (OpRemoteDelete a k')
  with assms show ?thesis by (simp add: remote_delete_def)
qed

lemma run_keeps_absent:
  "k \<notin> fst ` set (priv_map s) \<Longrightarrow> untouched tgs k s ops
     \<Longrightarrow> k \<notin> fst ` set (priv_map (run tgs s ops))"
  unfolding run_def
proof (induction ops arbitrary: s)
  case Nil
  then show ?case by simp
next
  case (Cons x xs)
  from Cons.prems have "k \<notin> fst ` set (priv_map (step tgs s x))"
    by (simp add: step_keeps_absent)
  with Cons.prems Cons.IH [of "step tgs s x"] show ?case by simp
qed

subsection \<open>C7: keys that were never set\<close>

text \<open>
  Claim C7. Take any run of an adapter from its construction in which no step hands the key
  \<open>k\<close> to it: no \<open>set\<close> or \<open>linkSet\<close> of \<open>k\<close>, no attachment to a remote map that holds
  \<open>k\<close>, no non-local event for \<open>k\<close>. Then \<open>has(k)\<close> is false and \<open>get(k)\<close> is \<open>undefined\<close>;
  neither read can raise, since each returns a plain value.
\<close>

theorem untouched_key_absent:
  assumes "untouched tgs k (constructor world convs) ops"
  shows "has (run tgs (constructor world convs) ops) k = False
    \<and> get (run tgs (constructor world convs) ops) k = Undefined"
proof -
  have "k \<notin> fst ` set (priv_map (constructor world convs))"
    by (simp add: constructor_def)
  then have "k \<notin> fst ` set (priv_map (run tgs (constructor world convs) ops))"
    using assms by (rule run_keeps_absent)
  then show ?thesis
    by (simp add: has_def get_def om_has_iff om_get_absent)
qed

theorem untouched_key_absent_witness:
  "untouched toGS_plain ''z'' (constructor world0 None)
      [OpGoogleObject 0, OpSet ''a'' (JNum 1), OpSet ''b'' (JStr ''x'')]
   \<and> has demo_state ''z'' = False \<and> get demo_state ''z'' = Undefined
   \<and> has demo_state ''a'' = True"
  using untouched_key_absent [of toGS_plain "''z''" world0 None
      "[OpGoogleObject 0, OpSet ''a'' (JNum 1), OpSet ''b'' (JStr ''x'')]"]
  by (simp add: demo_state_def [symmetric] demo_state_fields reader_defs)
     (simp add: constructor_def world0_def om_keys_def)

subsection \<open>The cache keeps its keys distinct\<close>

lemma delete_cache: "priv_map (snd (delete s k)) = AList.delete k (priv_map s)"
  by (simp add: delete_def gmap_delete_def emit_def Let_def split: option.split)

lemma populate_distinct:
  "distinct (map fst (priv_map s)) \<Longrightarrow> distinct (map fst (priv_map (snd (populate a s ks))))"
  by (induction ks arbitrary: s) (simp_all add: om_set_def AList.distinct_update split: sum.split)

lemma clear_loop_distinct:
  "distinct (map fst (priv_map s)) \<Longrightarrow> distinct (map fst (priv_map (snd (clear_loop s ks))))"
proof (induction ks arbitrary: s)
  case Nil
  then show ?case by simp
next
  case (Cons k ks)
  obtain r s1 where d: "delete s k = (r, s1)" by (cases "delete s k")
  have dist: "distinct (map fst (priv_map s1))"
    using delete_cache [of s k] d Cons.prems by (simp add: AList.distinct_delete)
  show ?case
  proof (cases r)
    case (Inl e)
    with d dist show ?thesis by simp
  next
    case (Inr v)
    show ?thesis
    proof (cases "priv_gmap s1")
      case None
      with d Inr dist show ?thesis by simp
    next
      case (Some a)
      have "distinct (map fst (priv_map (snd (clear_loop (gmap_delete s1 a k) ks))))"
        using dist by (intro Cons.IH) (simp add: gmap_delete_cache)
      with d Inr Some show ?thesis by simp
    qed
  qed
qed

lemma step_distinct:
  assumes "distinct (map fst (priv_map s))"
  shows "distinct (map fst (priv_map (step tgs s x)))"
proof (cases x)
  case (OpGoogleObject a)
  with assms show ?thesis by (simp add: set_googleObject_cache populate_distinct)
next
  case (OpDelete k)
  with assms show ?thesis by (simp add: delete_cache AList.distinct_delete)
next
  case OpClear
  with assms show ?thesis by (simp add: clear_def clear_loop_distinct)
qed (use assms in \<open>simp_all add: set_kv_def dispose_def link_def unlink_def linkSet_def
       on_value_changed_def gmap_set_def emit_def remote_set_def remote_delete_def om_set_def
       Let_def AList.distinct_update split: option.split sum.split\<close>)

lemma run_distinct:
  "distinct (map fst (priv_map s)) \<Longrightarrow> distinct (map fst (priv_map (run tgs s ops)))"
  unfolding run_def by (induction ops arbitrary: s) (simp_all add: step_distinct)

lemma reachable_distinct_keys: "distinct (keys (run tgs (constructor world convs) ops))"
  unfolding keys_def om_keys_def by (rule run_distinct) (simp add: constructor_def)

subsection \<open>clear, round by round\<close>

lemma clear_round_attached:
  assumes "priv_gmap s = Some a"
  shows "clear_round a s k =
     s\<lparr>priv_map := AList.delete k (priv_map s),
       remotes := (remotes s)(a := (remotes s a)\<lparr>entries := AList.delete k (entries (remotes s a))\<rparr>),
       trace := trace s @ [GDelete a k,
          Emit \<lparr>ev_type = Remove, ev_key = k, oldValue = get s k, newValue = Undefined\<rparr>,
          GDelete a k]\<rparr>"
  using assms by (simp add: clear_round_def delete_attached gmap_delete_def AList.delete_idem)

lemma clear_loop_rounds:
  "priv_gmap s = Some a \<Longrightarrow> clear_loop s ks = (Inr (), foldl (clear_round a) s ks)"
proof (induction ks arbitrary: s)
  case Nil
  then show ?case by simp
next
  case (Cons k ks)
  obtain s1 where d: "delete s k = (Inr (get s k), s1)" and g: "priv_gmap s1 = Some a"
    using Cons.prems by (simp add: delete_attached)
  have r: "clear_round a s k = gmap_delete s1 a k"
    by (simp add: clear_round_def d)
  have "priv_gmap (gmap_delete s1 a k) = Some a"
    using g by (simp add: gmap_delete_def)
  then have "clear_loop (gmap_delete s1 a k) ks
               = (Inr (), foldl (clear_round a) (gmap_delete s1 a k) ks)"
    by (rule Cons.IH)
  then show ?case
    by (simp add: d g r)
qed

lemma rounds_gmap:
  "priv_gmap s = Some a \<Longrightarrow> priv_gmap (foldl (clear_round a) s ks) = Some a"
  by (induction ks arbitrary: s) (simp_all add: clear_round_attached)

lemma rounds_cache:
  "priv_gmap s = Some a \<Longrightarrow>
     priv_map (foldl (clear_round a) s ks) = filter (\<lambda>p. fst p \<notin> set ks) (priv_map s)"
proof (induction ks arbitrary: s)
  case Nil
  then show ?case by simp
next
  case (Cons k ks)
  have "priv_map (foldl (clear_round a) (clear_round a s k) ks)
          = filter (\<lambda>p. fst p \<notin> set ks) (priv_map (clear_round a s k))"
    using Cons.prems by (intro Cons.IH) (simp add: clear_round_attached)
  also have "\<dots> = filter (\<lambda>p. fst p \<notin> set ks) (AList.delete k (priv_map s))"
    using Cons.prems by (simp add: clear_round_attached)
  also have "\<dots> = filter (\<lambda>p. fst p \<notin> set (k # ks)) (priv_map s)"
    by (auto simp: AList.delete_eq intro: filter_cong)
  finally show ?case by simp
qed

lemma rounds_entries:
  "priv_gmap s = Some a \<Longrightarrow>
     entries (remotes (foldl (clear_round a) s ks) a)
       = filter (\<lambda>p. fst p \<notin> set ks) (entries (remotes s a))"
proof (induction ks arbitrary: s)
  case Nil
  then show ?case by simp
next
  case (Cons k ks)
  have "entries (remotes (foldl (clear_round a) (clear_round a s k) ks) a)
          = filter (\<lambda>p. fst p \<notin> set ks) (entries (remotes (clear_round a s k) a))"
    using Cons.prems by (intro Cons.IH) (simp add: clear_round_attached)
  also have "\<dots> = filter (\<lambda>p. fst p \<notin> set ks) (AList.delete k (entries (remotes s a)))"
    using Cons.prems by (simp add: clear_round_attached)
  also have "\<dots> = filter (\<lambda>p. fst p \<notin> set (k # ks)) (entries (remotes s a))"
    by (auto simp: AList.delete_eq intro: filter_cong)
  finally show ?case by simp
qed

lemma om_get_delete_other: "k' \<noteq> k \<Longrightarrow> om_get (AList.delete k m) k' = om_get m k'"
  by (simp add: om_get_def)

lemma rounds_trace:
  "priv_gmap s = Some a \<Longrightarrow> distinct ks \<Longrightarrow>
     trace (foldl (clear_round a) s ks) = trace s @
       concat (map (\<lambda>k. [GDelete a k,
          Emit \<lparr>ev_type = Remove, ev_key = k, oldValue = get s k, newValue = Undefined\<rparr>,
          GDelete a k]) ks)"
proof (induction ks arbitrary: s)
  case Nil
  then show ?case by simp
next
  case (Cons k ks)
  let ?s1 = "clear_round a s k"
  have att: "priv_gmap ?s1 = Some a"
    using Cons.prems by (simp add: clear_round_attached)
  have same: "get ?s1 k' = get s k'" if "k' \<in> set ks" for k'
  proof -
    from that Cons.prems have "k' \<noteq> k" by auto
    then show ?thesis
      using Cons.prems by (simp add: clear_round_attached get_def om_get_delete_other)
  qed
  have "trace (foldl (clear_round a) ?s1 ks) = trace ?s1 @
       concat (map (\<lambda>k. [GDelete a k,
          Emit \<lparr>ev_type = Remove, ev_key = k, oldValue = get ?s1 k, newValue = Undefined\<rparr>,
          GDelete a k]) ks)"
    using att Cons.prems by (intro Cons.IH) simp_all
  also have "map (\<lambda>k. [GDelete a k,
          Emit \<lparr>ev_type = Remove, ev_key = k, oldValue = get ?s1 k, newValue = Undefined\<rparr>,
          GDelete a k]) ks
     = map (\<lambda>k. [GDelete a k,
          Emit \<lparr>ev_type = Remove, ev_key = k, oldValue = get s k, newValue = Undefined\<rparr>,
          GDelete a k]) ks"
    by (rule map_cong) (simp_all add: same)
  finally show ?case
    using Cons.prems by (simp add: clear_round_attached)
qed

lemma emitted_rounds:
  "emitted (concat (map (\<lambda>k. [GDelete a k, Emit (f k), GDelete a k]) ks)) = map f ks"
  by (induction ks) simp_all

lemma filter_own_keys: "filter (\<lambda>p. fst p \<notin> set (map fst m)) m = []"
  by (induction m) auto

subsection \<open>C5: clear\<close>

text \<open>
  Claim C5. On an attached adapter, in any state reached from its construction, \<open>clear()\<close>
  returns without error and is the loop that deletes the cached keys one at a time, in
  the order of \<open>keys()\<close>: each round calls \<open>delete\<close> for one key and then the remote map's
  \<open>delete\<close> once more; no bulk operation is called. Afterwards \<open>keys()\<close> is empty, and the
  events emitted are exactly one \<open>remove\<close> event for each key that was present, carrying
  the value the key had.
\<close>

theorem clear_deletes_one_by_one:
  fixes tgs world convs ops
  defines "s \<equiv> run tgs (constructor world convs) ops"
  assumes "priv_gmap s = Some a"
  shows "fst (clear s) = Inr ()
    \<and> snd (clear s) = foldl (clear_round a) s (keys s)
    \<and> keys (snd (clear s)) = []
    \<and> distinct (keys s)
    \<and> emitted (trace (snd (clear s))) = emitted (trace s) @
         map (\<lambda>k. \<lparr>ev_type = Remove, ev_key = k, oldValue = get s k, newValue = Undefined\<rparr>) (keys s)
    \<and> trace (snd (clear s)) = trace s @
         concat (map (\<lambda>k. [GDelete a k,
            Emit \<lparr>ev_type = Remove, ev_key = k, oldValue = get s k, newValue = Undefined\<rparr>,
            GDelete a k]) (keys s))"
proof -
  have dist: "distinct (keys s)"
    unfolding s_def by (rule reachable_distinct_keys)
  have loop: "clear s = (Inr (), foldl (clear_round a) s (keys s))"
    using assms(2) by (simp add: clear_def clear_loop_rounds)
  have tr: "trace (foldl (clear_round a) s (keys s)) = trace s @
         concat (map (\<lambda>k. [GDelete a k,
            Emit \<lparr>ev_type = Remove, ev_key = k, oldValue = get s k, newValue = Undefined\<rparr>,
            GDelete a k]) (keys s))"
    using assms(2) dist by (rule rounds_trace)
  have ks: "keys (foldl (clear_round a) s (keys s)) = []"
    using assms(2) by (simp add: keys_def om_keys_def rounds_cache filter_own_keys)
  show ?thesis
    by (simp add: loop ks dist tr emitted_rounds)
qed

theorem clear_deletes_one_by_one_witness:
  "priv_gmap demo_state = Some 0
   \<and> keys demo_state = [''a'', ''b'']
   \<and> fst (clear demo_state) = Inr ()
   \<and> keys (snd (clear demo_state)) = []
   \<and> emitted (trace (snd (clear demo_state))) = emitted (trace demo_state) @
        [\<lparr>ev_type = Remove, ev_key = ''a'', oldValue = JNum 1, newValue = Undefined\<rparr>,
         \<lparr>ev_type = Remove, ev_key = ''b'', oldValue = JStr ''x'', newValue = Undefined\<rparr>]
   \<and> trace (snd (clear demo_state)) = trace demo_state @
        [GDelete 0 ''a'',
         Emit \<lparr>ev_type = Remove, ev_key = ''a'', oldValue = JNum 1, newValue = Undefined\<rparr>,
         GDelete 0 ''a'',
         GDelete 0 ''b'',
         Emit \<lparr>ev_type = Remove, ev_key = ''b'', oldValue = JStr ''x'', newValue = Undefined\<rparr>,
         GDelete 0 ''b'']"
proof -
  have att: "priv_gmap demo_state = Some 0"
    by (simp add: demo_state_fields)
  note th = clear_deletes_one_by_one [of toGS_plain world0 None
      "[OpGoogleObject 0, OpSet ''a'' (JNum 1), OpSet ''b'' (JStr ''x'')]" 0,
      folded demo_state_def, OF att]
  note ok = th [THEN conjunct1]
  note ks = th [THEN conjunct2, THEN conjunct2, THEN conjunct1]
  note ev = th [THEN conjunct2, THEN conjunct2, THEN conjunct2, THEN conjunct2, THEN conjunct1]
  note tr = th [THEN conjunct2, THEN conjunct2, THEN conjunct2, THEN conjunct2, THEN conjunct2]
  show ?thesis
    using ok ks ev tr by (simp add: demo_state_fields reader_defs)
qed

subsection \<open>The cache and the remote map under set, delete and clear\<close>

lemma createNewGoogleEntry_cong:
  "priv_converters s = priv_converters s0 \<Longrightarrow>
     createNewGoogleEntry tgs s k v = createNewGoogleEntry tgs s0 k v"
  by (simp add: createNewGoogleEntry_def)

lemma map_of_filter_notin:
  "map_of (filter (\<lambda>p. fst p \<notin> set ks) m) k = (if k \<in> set ks then None else map_of m k)"
  by (induction m) auto

lemma clear_attached:
  assumes "priv_gmap s = Some a"
  shows "priv_gmap (snd (clear s)) = Some a"
    and "priv_converters (snd (clear s)) = priv_converters s"
    and "map_of (priv_map (snd (clear s))) k = None"
    and "map_of (entries (remotes (snd (clear s)) a)) k =
           (if k \<in> set (keys s) then None else map_of (entries (remotes s a)) k)"
proof -
  have loop: "snd (clear s) = foldl (clear_round a) s (keys s)"
    using assms by (simp add: clear_def clear_loop_rounds)
  show "priv_gmap (snd (clear s)) = Some a"
    using assms by (simp add: loop rounds_gmap)
  have "priv_converters (foldl (clear_round a) s0 ks) = priv_converters s0"
    if "priv_gmap s0 = Some a" for s0 ks
    using that by (induction ks arbitrary: s0) (simp_all add: clear_round_attached)
  then show "priv_converters (snd (clear s)) = priv_converters s"
    using assms by (simp add: loop)
  show "map_of (priv_map (snd (clear s))) k = None"
    using assms by (simp add: loop rounds_cache keys_def om_keys_def filter_own_keys)
  show "map_of (entries (remotes (snd (clear s)) a)) k =
           (if k \<in> set (keys s) then None else map_of (entries (remotes s a)) k)"
    using assms by (simp only: loop rounds_entries map_of_filter_notin)
qed

lemma local_step_frame:
  assumes "priv_gmap s = Some a" and "local_method x"
  shows "priv_gmap (step tgs s x) = Some a \<and> priv_converters (step tgs s x) = priv_converters s"
proof (cases x)
  case (OpSet k v)
  with assms show ?thesis
    by (cases "v = Undefined") (simp_all add: set_kv_attached set_kv_undefined)
next
  case (OpDelete k)
  with assms show ?thesis by (simp add: delete_attached)
next
  case OpClear
  with assms show ?thesis by (simp add: clear_attached)
qed (use assms in simp_all)

text \<open>Which local methods throw on an attached adapter: only \<open>set\<close> of \<open>undefined\<close>.\<close>

lemma local_throws:
  assumes "priv_gmap s = Some a"
  shows "throws tgs s (OpSet k v) = (v = Undefined)"
    and "throws tgs s (OpDelete k) = False"
    and "throws tgs s OpClear = False"
proof -
  show "throws tgs s (OpSet k v) = (v = Undefined)"
    using assms by (cases "v = Undefined") (simp_all add: set_kv_attached set_kv_undefined)
  show "throws tgs s (OpDelete k) = False"
    using assms by (simp add: delete_attached)
  show "throws tgs s OpClear = False"
    using assms by (simp add: clear_def clear_loop_rounds)
qed

lemma local_all_return:
  assumes "priv_gmap s = Some a" and "list_all local_method ops"
    and "Undefined \<notin> set (concat (map (\<lambda>x. case x of OpSet k v \<Rightarrow> [v] | _ \<Rightarrow> []) ops))"
  shows "all_return tgs s ops"
  using assms
proof (induction ops arbitrary: s)
  case Nil
  then show ?case by simp
next
  case (Cons x xs)
  from Cons.prems have loc: "local_method x" by simp
  have att: "priv_gmap (step tgs s x) = Some a"
    using local_step_frame [OF Cons.prems(1) loc] by simp
  have "\<not> throws tgs s x"
    using Cons.prems(3) loc
    by (cases x) (auto simp add: local_throws [OF Cons.prems(1)] simp del: throws.simps)
  moreover have "all_return tgs (step tgs s x) xs"
    using att Cons.prems by (intro Cons.IH) simp_all
  ultimately show ?case by simp
qed

lemma local_step_agree:
  assumes att: "priv_gmap s = Some a" and loc: "local_method x"
    and ret: "\<not> throws tgs s x"
    and cv: "priv_converters s = priv_converters s0"
    and k: "k \<in> set (keys_set [x]) \<or>
            map_of (entries (remotes s a)) k
              = map_option (createNewGoogleEntry tgs s0 k) (map_of (priv_map s) k)"
  shows "map_of (entries (remotes (step tgs s x) a)) k
           = map_option (createNewGoogleEntry tgs s0 k) (map_of (priv_map (step tgs s x)) k)"
proof (cases x)
  case (OpSet k' v)
  with ret have v: "v \<noteq> Undefined"
    by (simp add: local_throws [OF att] del: throws.simps)
  show ?thesis
  proof (cases "k' = k")
    case True
    have "createNewGoogleEntry tgs s k v = createNewGoogleEntry tgs s0 k v"
      using cv by (rule createNewGoogleEntry_cong)
    with True OpSet att v show ?thesis
      by (simp add: set_kv_attached AList.update_conv')
  next
    case False
    with OpSet att k v show ?thesis
      by (simp add: set_kv_attached AList.update_conv')
  qed
next
  case (OpDelete k')
  with att k show ?thesis
    by (simp add: delete_attached AList.delete_conv')
next
  case OpClear
  show ?thesis
  proof (cases "k \<in> set (keys s)")
    case True
    with OpClear att show ?thesis by (simp add: clear_attached)
  next
    case False
    then have "map_of (priv_map s) k = None"
      by (simp add: keys_def om_keys_def map_of_eq_None_iff)
    with False OpClear att k show ?thesis by (simp add: clear_attached)
  qed
qed (use loc in simp_all)

lemma keys_set_Cons: "set (keys_set (x # xs)) = set (keys_set [x]) \<union> set (keys_set xs)"
  by (cases x) simp_all

lemma local_run_agree:
  assumes "priv_gmap s = Some a" and "list_all local_method ops"
    and "priv_converters s = priv_converters s0"
    and "k \<in> set (keys_set ops) \<or>
          map_of (entries (remotes s a)) k
            = map_option (createNewGoogleEntry tgs s0 k) (map_of (priv_map s) k)"
    and "all_return tgs s ops"
  shows "map_of (entries (remotes (run tgs s ops) a)) k
           = map_option (createNewGoogleEntry tgs s0 k) (map_of (priv_map (run tgs s ops)) k)"
  using assms unfolding run_def
proof (induction ops arbitrary: s)
  case Nil
  then show ?case by simp
next
  case (Cons x xs)
  let ?s1 = "step tgs s x"
  from Cons.prems have loc: "local_method x" and rest: "list_all local_method xs"
    and ret: "\<not> throws tgs s x" and rets: "all_return tgs ?s1 xs"
    by simp_all
  have fr: "priv_gmap ?s1 = Some a" "priv_converters ?s1 = priv_converters s0"
    using local_step_frame [OF Cons.prems(1) loc, of tgs] Cons.prems(3) by simp_all
  have "k \<in> set (keys_set xs) \<or>
          map_of (entries (remotes ?s1 a)) k
            = map_option (createNewGoogleEntry tgs s0 k) (map_of (priv_map ?s1) k)"
  proof (cases "k \<in> set (keys_set xs)")
    case True
    then show ?thesis by simp
  next
    case False
    with Cons.prems(4) have "k \<in> set (keys_set [x]) \<or>
            map_of (entries (remotes s a)) k
              = map_option (createNewGoogleEntry tgs s0 k) (map_of (priv_map s) k)"
      using keys_set_Cons [of x xs] by auto
    then show ?thesis
      using local_step_agree [OF Cons.prems(1) loc ret Cons.prems(3)] by blast
  qed
  then have "map_of (entries (remotes (foldl (step tgs) ?s1 xs) a)) k
           = map_option (createNewGoogleEntry tgs s0 k) (map_of (priv_map (foldl (step tgs) ?s1 xs)) k)"
    using fr rest rets by (intro Cons.IH) simp_all
  then show ?case by simp
qed

text \<open>
  The converter of \<open>conv_state\<close> sends both 2 and 3 to \<open>'many'\<close>, so whatever
  \<open>toGoogleSynchronizable\<close> does, one of the two is stored in the cache and differs from
  what the remote map receives.
\<close>

lemma converted_entry_differs_for_every_conversion:
  fixes tgs :: "jsval \<Rightarrow> jsval"
  defines "v \<equiv> (if tgs (JStr ''many'') = JNum 2 then JNum 3 else JNum 2)"
  shows "map_of (priv_map (run tgs conv_state [OpSet ''a'' v])) ''a'' = Some v
    \<and> map_of (entries (remotes (run tgs conv_state [OpSet ''a'' v]) 0)) ''a''
         = Some (tgs (JStr ''many''))
    \<and> tgs (JStr ''many'') \<noteq> v"
proof -
  have v: "v \<noteq> Undefined" by (simp add: v_def)
  have att: "priv_gmap conv_state = Some 0" by (simp add: conv_state_fields)
  have c: "createNewGoogleEntry tgs conv_state ''a'' v = tgs (JStr ''many'')"
    by (simp add: v_def createNewGoogleEntry_def conv_state_fields num_converter_def)
  show ?thesis
    by (simp add: run_def set_kv_attached [OF att v] c conv_state_fields) (simp add: v_def)
qed

subsection \<open>C3: the cache and the remote map after local methods\<close>

text \<open>
  Claim C3 as stated fails in two ways. For a key that has a converter the remote map
  receives the converted value, the cache the value itself: in \<open>conv_state\<close> the key \<open>a\<close> has
  a converter, and after \<open>set('a', 1)\<close> the cache holds \<open>1\<close> and the remote map holds
  \<open>'one'\<close>. And \<open>set(k, undefined)\<close> writes the remote map before \<open>_map.set\<close> throws: in
  \<open>demo_state\<close>, where \<open>a\<close> was set to \<open>1\<close>, after \<open>set('a', undefined)\<close> (which throws) and
  \<open>delete('zz')\<close> (which returns) the cache holds \<open>1\<close> and the remote map \<open>undefined\<close>.
\<close>

theorem converted_entry_differs:
  "priv_gmap conv_state = Some 0
   \<and> list_all local_method [OpSet ''a'' (JNum 1)]
   \<and> ''a'' \<in> set (keys_set [OpSet ''a'' (JNum 1)])
   \<and> map_of (priv_map (run toGS_plain conv_state [OpSet ''a'' (JNum 1)])) ''a'' = Some (JNum 1)
   \<and> map_of (entries (remotes (run toGS_plain conv_state [OpSet ''a'' (JNum 1)]) 0)) ''a''
        = Some (JStr ''one'')
   \<and> map_of (entries (remotes (run toGS_plain conv_state [OpSet ''a'' (JNum 1)]) 0)) ''a''
        \<noteq> map_of (priv_map (run toGS_plain conv_state [OpSet ''a'' (JNum 1)])) ''a''
   \<and> priv_gmap demo_state = Some 0
   \<and> list_all local_method [OpSet ''a'' Undefined, OpDelete ''zz'']
   \<and> ''a'' \<in> set (keys_set [OpSet ''a'' Undefined, OpDelete ''zz''])
   \<and> throws toGS_plain demo_state (OpSet ''a'' Undefined) = True
   \<and> throws toGS_plain (step toGS_plain demo_state (OpSet ''a'' Undefined)) (OpDelete ''zz'') = False
   \<and> map_of (priv_map (run toGS_plain demo_state [OpSet ''a'' Undefined, OpDelete ''zz''])) ''a''
        = Some (JNum 1)
   \<and> map_of (entries (remotes (run toGS_plain demo_state [OpSet ''a'' Undefined, OpDelete ''zz'']) 0)) ''a''
        = Some Undefined"
  by (simp add: run_def set_kv_attached set_kv_undefined delete_attached conv_state_fields
      demo_state_fields createNewGoogleEntry_def num_converter_def toGS_plain_def)

text \<open>
  Claim C3, amended. Let the remote handle be attached, and let any sequence of \<open>set\<close>,
  \<open>delete\<close> and \<open>clear\<close> calls follow, each of which returns (none throws, so no \<open>set\<close> of
  \<open>undefined\<close>), with no remote change in between. Then for every key \<open>k\<close> that the sequence
  has set, the remote map holds under \<open>k\<close> the remote form of what the cache holds under
  \<open>k\<close> (nothing if the cache holds nothing): the cached value itself if \<open>k\<close> has no
  converter, and \<open>toGoogleSynchronizable(converter.to(value))\<close> if it has one. For a key
  without a converter the two entries are equal.
\<close>

theorem cache_and_remote_agree:
  assumes "priv_gmap s = Some a" and "list_all local_method ops" and "all_return tgs s ops"
    and "k \<in> set (keys_set ops)"
  shows "map_of (entries (remotes (run tgs s ops) a)) k
           = map_option (createNewGoogleEntry tgs s k) (map_of (priv_map (run tgs s ops)) k)
    \<and> (priv_converters s k = None \<longrightarrow>
         map_of (entries (remotes (run tgs s ops) a)) k = map_of (priv_map (run tgs s ops)) k)"
proof -
  have main: "map_of (entries (remotes (run tgs s ops) a)) k
           = map_option (createNewGoogleEntry tgs s k) (map_of (priv_map (run tgs s ops)) k)"
    using assms by (intro local_run_agree) simp_all
  have "map_option (createNewGoogleEntry tgs s k) m = m" if "priv_converters s k = None" for m
    using that by (cases m) (simp_all add: createNewGoogleEntry_def)
  with main show ?thesis by simp
qed

theorem cache_and_remote_agree_witness:
  "priv_gmap conv_state = Some 0
   \<and> list_all local_method mixed_ops
   \<and> all_return toGS_plain conv_state mixed_ops
   \<and> set (keys_set mixed_ops) = {''a'', ''b''}
   \<and> map_of (priv_map (run toGS_plain conv_state mixed_ops)) ''a'' = Some (JNum 2)
   \<and> map_of (entries (remotes (run toGS_plain conv_state mixed_ops) 0)) ''a'' = Some (JStr ''many'')
   \<and> createNewGoogleEntry toGS_plain conv_state ''a'' (JNum 2) = JStr ''many''
   \<and> priv_converters conv_state ''b'' = None
   \<and> map_of (priv_map (run toGS_plain conv_state mixed_ops)) ''b'' = Some (JNum 3)
   \<and> map_of (entries (remotes (run toGS_plain conv_state mixed_ops) 0)) ''b'' = Some (JNum 3)"
proof -
  have att: "priv_gmap conv_state = Some 0"
    by (simp add: conv_state_fields)
  have loc: "list_all local_method mixed_ops"
    by (simp add: mixed_ops_def)
  have ret: "all_return toGS_plain conv_state mixed_ops"
    using att loc by (rule local_all_return) (simp add: mixed_ops_def)
  have ks: "set (keys_set mixed_ops) = {''a'', ''b''}"
    by (auto simp: mixed_ops_def)
  have cache: "priv_map (run toGS_plain conv_state mixed_ops) = [(''a'', JNum 2), (''b'', JNum 3)]"
    by (simp add: mixed_ops_def run_def set_kv_attached delete_attached clear_def
        gmap_delete_def keys_def om_keys_def get_def om_get_def conv_state_fields)
  have nob: "priv_converters conv_state ''b'' = None"
    by (simp add: conv_state_fields)
  have conv: "createNewGoogleEntry toGS_plain conv_state ''a'' (JNum 2) = JStr ''many''"
    by (simp add: createNewGoogleEntry_def conv_state_fields num_converter_def toGS_plain_def)
  have a: "map_of (entries (remotes (run toGS_plain conv_state mixed_ops) 0)) ''a'' = Some (JStr ''many'')"
    using cache_and_remote_agree [OF att loc ret, of "''a''"]
    by (simp add: ks cache conv)
  have b: "map_of (entries (remotes (run toGS_plain conv_state mixed_ops) 0)) ''b'' = Some (JNum 3)"
    using cache_and_remote_agree [OF att loc ret, of "''b''", THEN conjunct2] nob
    by (simp add: ks cache)
  show ?thesis
    using att loc ret ks a b nob conv by (simp add: cache)
qed

subsection \<open>C9: size and keys\<close>

lemma removed_state_fields:
  "priv_gmap removed_state = Some 0"
  "priv_map removed_state = [(''a'', Null), (''b'', JStr ''x'')]"
  "entries (remotes removed_state 0) = [(''b'', JStr ''x'')]"
  unfolding removed_state_def
  by (simp_all add: run_def remote_delete_def listener_nonlocal createNewEntry_def
      demo_state_fields)

text \<open>
  Claim C9 as stated fails in its last clause. In \<open>diverged_state\<close> the cache holds only the
  key \<open>a\<close> and the remote map only the key \<open>c\<close>: the two key sets differ, and yet \<open>size\<close>
  and \<open>keys().length\<close> are both 1.
\<close>

theorem size_equal_on_diverged_maps:
  "priv_gmap diverged_state = Some 0
   \<and> keys diverged_state = [''a'']
   \<and> om_keys (entries (remotes diverged_state 0)) = [''c'']
   \<and> set (keys diverged_state) \<noteq> set (om_keys (entries (remotes diverged_state 0)))
   \<and> size_prop diverged_state = Inr 1
   \<and> size_prop diverged_state = Inr (length (keys diverged_state))"
  by (simp add: diverged_state_fields reader_defs)

text \<open>
  Claim C9, amended. On an attached adapter \<open>size\<close> is the number of entries of the remote
  map, not of the local cache. It equals \<open>keys().length\<close> whenever the cache and the remote
  map hold the same set of keys. When the two key sets diverge, \<open>size\<close> and
  \<open>keys().length\<close> differ exactly when the two maps hold different numbers of keys, which
  is so whenever one key set strictly contains the other; they coincide otherwise. (Keys
  are unique in both maps.)
\<close>

theorem size_reads_remote_count:
  assumes "priv_gmap s = Some a"
    and "distinct (keys s)" and "distinct (om_keys (entries (remotes s a)))"
  shows "size_prop s = Inr (length (entries (remotes s a)))
    \<and> (set (keys s) = set (om_keys (entries (remotes s a)))
         \<longrightarrow> size_prop s = Inr (length (keys s)))
    \<and> ((size_prop s = Inr (length (keys s)))
         = (length (om_keys (entries (remotes s a))) = length (keys s)))
    \<and> (set (om_keys (entries (remotes s a))) \<subset> set (keys s)
         \<longrightarrow> size_prop s \<noteq> Inr (length (keys s)))
    \<and> (set (keys s) \<subset> set (om_keys (entries (remotes s a)))
         \<longrightarrow> size_prop s \<noteq> Inr (length (keys s)))"
proof -
  let ?r = "om_keys (entries (remotes s a))"
  have sz: "size_prop s = Inr (length ?r)"
    using assms(1) by (simp add: size_prop_def om_keys_def)
  have ck: "card (set (keys s)) = length (keys s)" and cr: "card (set ?r) = length ?r"
    using assms(2,3) by (simp_all add: distinct_card)
  have same: "length ?r = length (keys s)" if "set (keys s) = set ?r"
    using that ck cr by simp
  have less1: "length ?r < length (keys s)" if "set ?r \<subset> set (keys s)"
    using psubset_card_mono [OF _ that] ck cr by simp
  have less2: "length (keys s) < length ?r" if "set (keys s) \<subset> set ?r"
    using psubset_card_mono [OF _ that] ck cr by simp
  have c1: "size_prop s = Inr (length (entries (remotes s a)))"
    using assms(1) by (simp add: size_prop_def)
  have c2: "set (keys s) = set ?r \<longrightarrow> size_prop s = Inr (length (keys s))"
    using same by (simp add: sz)
  have c3: "(size_prop s = Inr (length (keys s))) = (length ?r = length (keys s))"
    by (simp add: sz)
  have c4: "set ?r \<subset> set (keys s) \<longrightarrow> size_prop s \<noteq> Inr (length (keys s))"
  proof
    assume "set ?r \<subset> set (keys s)"
    then have "length ?r < length (keys s)" by (rule less1)
    then show "size_prop s \<noteq> Inr (length (keys s))" by (simp add: sz)
  qed
  have c5: "set (keys s) \<subset> set ?r \<longrightarrow> size_prop s \<noteq> Inr (length (keys s))"
  proof
    assume "set (keys s) \<subset> set ?r"
    then have "length (keys s) < length ?r" by (rule less2)
    then show "size_prop s \<noteq> Inr (length (keys s))" by (simp add: sz)
  qed
  from c1 c2 c3 c4 c5 show ?thesis by blast
qed

theorem size_reads_remote_count_witness:
  "priv_gmap demo_state = Some 0
   \<and> distinct (keys demo_state) \<and> distinct (om_keys (entries (remotes demo_state 0)))
   \<and> set (keys demo_state) = set (om_keys (entries (remotes demo_state 0)))
   \<and> size_prop demo_state = Inr 2 \<and> length (keys demo_state) = 2
   \<and> priv_gmap removed_state = Some 0
   \<and> distinct (keys removed_state) \<and> distinct (om_keys (entries (remotes removed_state 0)))
   \<and> set (om_keys (entries (remotes removed_state 0))) \<subset> set (keys removed_state)
   \<and> size_prop removed_state = Inr 1 \<and> length (keys removed_state) = 2"
  using size_reads_remote_count [of demo_state 0] size_reads_remote_count [of removed_state 0]
  by (auto simp: demo_state_fields removed_state_fields reader_defs)

end
